theory Spec2Isabelle
  imports Main "HOL-Library.Sublist"
begin

section \<open>Python values used by \<open>jenkins_cli/test_collateral.py\<close>\<close>

text \<open>
  Strings are \<open>char list\<close>. \<open>str.lower\<close> is modelled on the ASCII letters: the 26
  capital letters are mapped to their small counterparts, every other character is kept.
  \<open>p in s\<close> on strings is the contiguous-sublist test, \<open>s.startswith(p)\<close> and
  \<open>s.endswith(p)\<close> are the prefix and suffix tests.
\<close>

datatype py_error =
  IndexError | KeyError | ValueError | TypeError | OSError | JSONDecodeError | AttributeError

definition lower_char :: "char \<Rightarrow> char" where
  "lower_char c =
     (case map_of (zip ''ABCDEFGHIJKLMNOPQRSTUVWXYZ'' ''abcdefghijklmnopqrstuvwxyz'') c of
        Some d \<Rightarrow> d
      | None \<Rightarrow> c)"

definition lower :: "string \<Rightarrow> string" where
  "lower s = map lower_char s"

definition str_in :: "string \<Rightarrow> string \<Rightarrow> bool" where
  "str_in p s = sublist p s"

definition startswith :: "string \<Rightarrow> string \<Rightarrow> bool" where
  "startswith s p = prefix p s"

definition endswith :: "string \<Rightarrow> string \<Rightarrow> bool" where
  "endswith s p = suffix p s"

text \<open>
  \<open>s.replace(old, new)\<close> scans from the left and replaces every non-overlapping
  occurrence of \<open>old\<close>; an empty \<open>old\<close> matches before every character and at the end.
\<close>

function str_replace :: "string \<Rightarrow> string \<Rightarrow> string \<Rightarrow> string" where
  "str_replace old new [] = (if old = [] then new else [])"
| "str_replace old new (c # cs) =
     (if old = [] then new @ c # str_replace old new cs
      else if prefix old (c # cs) then new @ str_replace old new (drop (length old) (c # cs))
      else c # str_replace old new cs)"
  by pat_completeness auto
termination
  by (relation "measure (\<lambda>(old, new, s). length s)") auto

text \<open>
  \<open>xs[0]\<close> raises \<open>IndexError\<close> on the empty list; \<open>xs.remove(x)\<close> deletes the first
  occurrence of \<open>x\<close> and raises \<open>ValueError\<close> when there is none.
\<close>

definition list_remove :: "'a \<Rightarrow> 'a list \<Rightarrow> py_error + 'a list" where
  "list_remove x xs = (if x \<in> set xs then Inr (remove1 x xs) else Inl ValueError)"

definition and_then :: "py_error + 'a \<Rightarrow> ('a \<Rightarrow> py_error + 'b) \<Rightarrow> py_error + 'b" where
  "and_then r f = (case r of Inl e \<Rightarrow> Inl e | Inr v \<Rightarrow> f v)"

definition index0 :: "'a list \<Rightarrow> py_error + 'a" where
  "index0 xs = (case xs of [] \<Rightarrow> Inl IndexError | x # _ \<Rightarrow> Inr x)"

text \<open>
  \<open>min(xs, key=f)\<close> and \<open>max(xs, key=f)\<close> raise \<open>ValueError\<close> on the empty list.
  Otherwise they walk the list once and replace the element held so far only by a
  strictly smaller (greater) one, so among equal keys the earliest element stays.
\<close>

fun min_loop :: "('a \<Rightarrow> nat) \<Rightarrow> 'a \<Rightarrow> 'a list \<Rightarrow> 'a" where
  "min_loop key best [] = best"
| "min_loop key best (x # xs) =
     (if key x < key best then min_loop key x xs else min_loop key best xs)"

definition py_min :: "('a \<Rightarrow> nat) \<Rightarrow> 'a list \<Rightarrow> py_error + 'a" where
  "py_min key xs = (case xs of [] \<Rightarrow> Inl ValueError | x # rest \<Rightarrow> Inr (min_loop key x rest))"

fun max_loop :: "('a \<Rightarrow> nat) \<Rightarrow> 'a \<Rightarrow> 'a list \<Rightarrow> 'a" where
  "max_loop key best [] = best"
| "max_loop key best (x # xs) =
     (if key best < key x then max_loop key x xs else max_loop key best xs)"

definition py_max :: "('a \<Rightarrow> nat) \<Rightarrow> 'a list \<Rightarrow> py_error + 'a" where
  "py_max key xs = (case xs of [] \<Rightarrow> Inl ValueError | x # rest \<Rightarrow> Inr (max_loop key x rest))"

text \<open>
  The two loop shapes of the resolver functions:
  \<^verbatim>\<open>for x in xs: if P(x): return x\<close> and
  \<^verbatim>\<open>for x in xs: if P(x): matches.append(x)\<close>.
\<close>

fun return_first :: "('a \<Rightarrow> bool) \<Rightarrow> 'a list \<Rightarrow> 'a option" where
  "return_first P [] = None"
| "return_first P (x # xs) = (if P x then Some x else return_first P xs)"

fun append_each :: "('a \<Rightarrow> bool) \<Rightarrow> 'a list \<Rightarrow> 'a list \<Rightarrow> 'a list" where
  "append_each P [] matches = matches"
| "append_each P (x # xs) matches =
     (if P x then append_each P xs (matches @ [x]) else append_each P xs matches)"

section \<open>Name resolution\<close>

subsection \<open>\<open>find_matching_service\<close>\<close>

definition find_matching_service :: "string \<Rightarrow> string list \<Rightarrow> py_error + string option" where
  "find_matching_service partial_name available_services =
     (if partial_name = [] \<or> available_services = [] then Inr None
      else
        case return_first (\<lambda>service. lower service = lower partial_name) available_services of
          Some service \<Rightarrow> Inr (Some service)
        | None \<Rightarrow>
            let matches =
              append_each (\<lambda>service. str_in (lower partial_name) (lower service))
                available_services []
            in
              if length matches = 1 then map_sum id Some (index0 matches)
              else
                case return_first (\<lambda>m. startswith (lower m) (lower partial_name)) matches of
                  Some m \<Rightarrow> Inr (Some m)
                | None \<Rightarrow>
                    if matches \<noteq> [] then map_sum id Some (py_min length matches)
                    else Inr None)"

subsection \<open>The cascade as the specification words it\<close>

text \<open>
  The specification describes one cascade shared by the resolver modes: an exact
  case-insensitive match; else the only candidate containing the query; else the first
  such candidate starting with the query; else a mode-dependent choice among the
  remaining candidates. \<open>spec_cascade\<close> follows these words, with the last choice as a
  parameter; \<open>first_of\<close> and \<open>shortest_of\<close> are the two choices in use.
\<close>

definition ci_equal :: "string \<Rightarrow> string \<Rightarrow> bool" where
  "ci_equal p s = (lower s = lower p)"

definition ci_contains :: "string \<Rightarrow> string \<Rightarrow> bool" where
  "ci_contains p s = sublist (lower p) (lower s)"

definition ci_startswith :: "string \<Rightarrow> string \<Rightarrow> bool" where
  "ci_startswith p s = prefix (lower p) (lower s)"

definition first_of :: "string list \<Rightarrow> string option" where
  "first_of ms = (case ms of [] \<Rightarrow> None | m # _ \<Rightarrow> Some m)"

definition shortest_of :: "string list \<Rightarrow> string option" where
  "shortest_of ms = find (\<lambda>m. \<forall>x \<in> set ms. length m \<le> length x) ms"

definition spec_cascade ::
  "(string list \<Rightarrow> string option) \<Rightarrow> string \<Rightarrow> string list \<Rightarrow> string option" where
  "spec_cascade residual p C =
     (case find (ci_equal p) C of
        Some s \<Rightarrow> Some s
      | None \<Rightarrow>
          (case filter (ci_contains p) C of
             [] \<Rightarrow> None
           | [m] \<Rightarrow> Some m
           | ms \<Rightarrow>
               (case find (ci_startswith p) ms of
                  Some m \<Rightarrow> Some m
                | None \<Rightarrow> residual ms)))"

subsection \<open>\<open>find_matching_branch\<close>\<close>

text \<open>
  \<open>find_matching_branch(partial_name)\<close> reads the branch history through
  \<open>get_cached_branches()\<close> and, when the history gives no candidate, the fallback list
  through \<open>get_available_branches()\<close>. The definition \<open>find_matching_branch\<close> below is
  the function from its guard on the empty name onwards, for a history and a fallback
  list that are lists of strings. The read of the history itself, which comes first in
  the source and can raise, is added by \<open>find_matching_branch_call\<close> in the section on
  reading the branch cache. \<open>default_branches\<close> is the list \<open>get_available_branches\<close>
  falls back to.
\<close>

definition default_branches :: "string list" where
  "default_branches = [''dev'', ''main'', ''master'', ''develop'', ''release'']"

definition find_matching_branch ::
  "string list \<Rightarrow> string list \<Rightarrow> string \<Rightarrow> py_error + string" where
  "find_matching_branch cached_branches available_branches partial_name =
     (if partial_name = [] then Inr ''dev''
      else
        case return_first (\<lambda>branch. lower branch = lower partial_name) cached_branches of
          Some branch \<Rightarrow> Inr branch
        | None \<Rightarrow>
            let matches =
              append_each (\<lambda>branch. str_in (lower partial_name) (lower branch))
                cached_branches []
            in
              if length matches = 1 then index0 matches
              else
                case return_first (\<lambda>m. startswith (lower m) (lower partial_name)) matches of
                  Some m \<Rightarrow> Inr m
                | None \<Rightarrow>
                    if matches \<noteq> [] then index0 matches
                    else
                      case return_first (\<lambda>branch. lower branch = lower partial_name)
                             available_branches of
                        Some branch \<Rightarrow> Inr branch
                      | None \<Rightarrow>
                          let matches =
                            append_each (\<lambda>branch. str_in (lower partial_name) (lower branch))
                              available_branches []
                          in
                            if length matches = 1 then index0 matches
                            else
                              case return_first
                                     (\<lambda>m. startswith (lower m) (lower partial_name)) matches of
                                Some m \<Rightarrow> Inr m
                              | None \<Rightarrow>
                                  if matches \<noteq> [] then py_min length matches
                                  else Inr partial_name)"

subsection \<open>Job selection and service extraction in \<open>build\<close>\<close>

text \<open>
  A job is the dictionary of the Jenkins listing; the code reads its \<open>name\<close> only.
  \<open>build_jobs_of\<close> is the filter loop at the head of \<open>build\<close>, \<open>select_build_job\<close> the
  selection that follows it: \<open>None\<close> is the early return after the message
  "No build job matching", \<open>Some job\<close> is \<open>selected_job\<close>.
\<close>

record job =
  name :: string
  url :: string
  color :: string

definition build_jobs_of :: "job list \<Rightarrow> job list" where
  "build_jobs_of jobs =
     append_each
       (\<lambda>job. str_in ''build'' (lower (name job)) \<and> \<not> endswith (lower (name job)) ''-report'')
       jobs []"

definition select_build_job :: "string \<Rightarrow> job list \<Rightarrow> py_error + job option" where
  "select_build_job partial_service_name build_jobs =
     (let search_name = lower partial_service_name;
          matching_jobs =
            append_each (\<lambda>job. str_in search_name (lower (name job))) build_jobs []
      in
        if matching_jobs = [] then Inr None
        else
          let matching_jobs =
            (if length matching_jobs > 1 then
               let exact_matches =
                 append_each (\<lambda>job. lower (name job) = search_name) matching_jobs []
               in
                 if exact_matches \<noteq> [] then exact_matches
                 else
                   let prefix_matches =
                     append_each
                       (\<lambda>job. startswith (lower (name job)) (''test-collateral-'' @ search_name))
                       matching_jobs []
                   in
                     if prefix_matches \<noteq> [] then prefix_matches
                     else
                       let start_matches =
                         append_each (\<lambda>job. startswith (lower (name job)) search_name)
                           matching_jobs []
                       in
                         if start_matches \<noteq> [] then start_matches else matching_jobs
             else matching_jobs)
          in map_sum id Some (index0 matching_jobs))"

text \<open>
  The service name sent as \<open>SERVICENAME\<close>: the longest service of the catalogue that
  occurs in the job name, else the job name with the two literals replaced by nothing
  when it starts with \<open>test-collateral-\<close>, else the job name.
\<close>

definition extract_service :: "string list \<Rightarrow> string \<Rightarrow> py_error + string" where
  "extract_service AVAILABLE_SERVICES build_job_name =
     (let matched_services =
        append_each (\<lambda>available_service. str_in available_service build_job_name)
          AVAILABLE_SERVICES []
      in
        if matched_services \<noteq> [] then py_max length matched_services
        else if startswith build_job_name ''test-collateral-''
        then Inr (str_replace ''-build'' [] (str_replace ''test-collateral-'' [] build_job_name))
        else Inr build_job_name)"

text \<open>
  The longest-match rule of the specification: the first entry of the catalogue, in
  catalogue order, that occurs in the job name and is at least as long as every entry
  occurring in it.
\<close>

definition spec_longest_entry :: "string list \<Rightarrow> string \<Rightarrow> string option" where
  "spec_longest_entry catalog job_name =
     find (\<lambda>e. sublist e job_name \<and>
                (\<forall>x \<in> set catalog. sublist x job_name \<longrightarrow> length x \<le> length e))
       catalog"

text \<open>
  The job mode of the specification: among the candidates containing the query, an exact
  match, else a name starting with \<open>test-collateral-\<close> and the query, else a name starting
  with the query, else the first candidate.
\<close>

definition spec_job_mode :: "string \<Rightarrow> job list \<Rightarrow> job option" where
  "spec_job_mode q candidates =
     (let ms = filter (\<lambda>j. ci_contains q (name j)) candidates in
        case find (\<lambda>j. ci_equal q (name j)) ms of
          Some j \<Rightarrow> Some j
        | None \<Rightarrow>
            (case find (\<lambda>j. ci_startswith (''test-collateral-'' @ q) (name j)) ms of
               Some j \<Rightarrow> Some j
             | None \<Rightarrow>
                 (case find (\<lambda>j. ci_startswith q (name j)) ms of
                    Some j \<Rightarrow> Some j
                  | None \<Rightarrow> (case ms of [] \<Rightarrow> None | j # _ \<Rightarrow> Some j))))"

section \<open>Branch history\<close>

text \<open>
  The stored history is the list \<open>load_branch_cache()\<close> returns: the \<open>branches\<close> list of
  the branch cache file, or the empty list when the file is absent or does not decode.
  \<open>save_branch_cache\<close> swallows every exception of the write; the outcome of the write
  is an argument. A write that fails after \<open>open(..., 'w')\<close> has truncated the file
  leaves an undecodable file, which loads as the empty list.
\<close>

datatype write_outcome = Written | Open_failed | Dump_failed

definition save_branch_cache :: "write_outcome \<Rightarrow> string list \<Rightarrow> string list \<Rightarrow> string list" where
  "save_branch_cache w branches stored =
     (case w of Written \<Rightarrow> branches | Open_failed \<Rightarrow> stored | Dump_failed \<Rightarrow> [])"

definition add_branch_to_cache ::
  "write_outcome \<Rightarrow> string \<Rightarrow> string list \<Rightarrow> py_error + string list" where
  "add_branch_to_cache w branch_name stored =
     (if lower branch_name = ''dev'' then Inr stored
      else
        let cached_branches = stored in
          and_then
            (if branch_name \<in> set cached_branches then list_remove branch_name cached_branches
             else Inr cached_branches)
            (\<lambda>cached_branches.
               let cached_branches = branch_name # cached_branches;
                   cached_branches = take 50 cached_branches
               in Inr (save_branch_cache w cached_branches stored)))"

text \<open>Touching a sequence of names, every write succeeding.\<close>

fun touch_all :: "string list \<Rightarrow> string list \<Rightarrow> py_error + string list" where
  "touch_all [] stored = Inr stored"
| "touch_all (n # ns) stored = and_then (add_branch_to_cache Written n stored) (touch_all ns)"

definition history_ok :: "string list \<Rightarrow> bool" where
  "history_ok h = (length h \<le> 50 \<and> (\<forall>b \<in> set h. lower b \<noteq> ''dev'') \<and> distinct h)"

section \<open>Job cache\<close>

text \<open>
  The cache file as \<open>load_jobs_cache\<close> meets it: absent (\<open>os.path.exists\<close> is false),
  present but \<open>open\<close> raises \<open>OSError\<close>, readable but \<open>json.load\<close> raises
  \<open>JSONDecodeError\<close>, or holding a JSON document. \<open>None\<close> is the JSON \<open>null\<close>.
  Datetimes are microseconds; \<open>datetime.fromisoformat\<close> and \<open>datetime.isoformat\<close> are
  parameters (\<open>parse\<close>, \<open>isoformat\<close>): \<open>parse s = None\<close> stands for \<open>ValueError\<close>, an aware result
  for a string with a UTC offset, which cannot be subtracted from the naive
  \<open>datetime.now()\<close>.
\<close>

datatype json =
  JNull | JBool bool | JNum int | JStr string | JArr "json list" | JObj "(string \<times> json) list"

datatype cache_file = Absent | No_access | Garbled | Document json

datatype datetime = Naive int | Aware int

definition CACHE_DURATION_MINUTES :: int where
  "CACHE_DURATION_MINUTES = 1440"

definition timedelta_minutes :: "int \<Rightarrow> int" where
  "timedelta_minutes m = m * 60000000"

definition json_load :: "cache_file \<Rightarrow> py_error + json" where
  "json_load f =
     (case f of
        Absent \<Rightarrow> Inl OSError
      | No_access \<Rightarrow> Inl OSError
      | Garbled \<Rightarrow> Inl JSONDecodeError
      | Document d \<Rightarrow> Inr d)"

definition subscript :: "json \<Rightarrow> string \<Rightarrow> py_error + json" where
  "subscript d k =
     (case d of
        JObj kvs \<Rightarrow> (case map_of kvs k of None \<Rightarrow> Inl KeyError | Some v \<Rightarrow> Inr v)
      | _ \<Rightarrow> Inl TypeError)"

definition fromisoformat :: "(string \<Rightarrow> datetime option) \<Rightarrow> json \<Rightarrow> py_error + datetime" where
  "fromisoformat parse v =
     (case v of
        JStr s \<Rightarrow> (case parse s of None \<Rightarrow> Inl ValueError | Some t \<Rightarrow> Inr t)
      | _ \<Rightarrow> Inl TypeError)"

definition elapsed :: "int \<Rightarrow> datetime \<Rightarrow> py_error + int" where
  "elapsed now t = (case t of Naive u \<Rightarrow> Inr (now - u) | Aware _ \<Rightarrow> Inl TypeError)"

text \<open>\<^verbatim>\<open>except (json.JSONDecodeError, KeyError, ValueError): return None\<close>\<close>

definition except_return_None :: "py_error + json \<Rightarrow> py_error + json" where
  "except_return_None r =
     (case r of
        Inl e \<Rightarrow> (if e \<in> {JSONDecodeError, KeyError, ValueError} then Inr JNull else Inl e)
      | Inr v \<Rightarrow> Inr v)"

definition load_jobs_cache :: "(string \<Rightarrow> datetime option) \<Rightarrow> int \<Rightarrow> cache_file \<Rightarrow> py_error + json" where
  "load_jobs_cache parse now f =
     except_return_None
       (if f = Absent then Inr JNull
        else
          and_then (json_load f) (\<lambda>cache_data.
          and_then (subscript cache_data ''timestamp'') (\<lambda>ts.
          and_then (fromisoformat parse ts) (\<lambda>cache_time.
          and_then (elapsed now cache_time) (\<lambda>age.
            if age > timedelta_minutes CACHE_DURATION_MINUTES then Inr JNull
            else subscript cache_data ''jobs'')))))"

definition save_jobs_cache :: "(int \<Rightarrow> string) \<Rightarrow> int \<Rightarrow> write_outcome \<Rightarrow> json \<Rightarrow> cache_file \<Rightarrow> cache_file" where
  "save_jobs_cache isoformat now w jobs f =
     (case w of
        Written \<Rightarrow> Document (JObj [(''timestamp'', JStr (isoformat now)), (''jobs'', jobs)])
      | Open_failed \<Rightarrow> f
      | Dump_failed \<Rightarrow> Garbled)"

section \<open>Reading the branch cache\<close>

text \<open>
  \<open>load_branch_cache\<close> has the handler of \<open>load_jobs_cache\<close>, with the empty list in
  place of \<open>None\<close>. \<open>d.get(k, default)\<close> exists on a dictionary only: on any other JSON
  value the attribute lookup raises \<open>AttributeError\<close>.
\<close>

definition dict_get :: "json \<Rightarrow> string \<Rightarrow> json \<Rightarrow> py_error + json" where
  "dict_get d k fallback =
     (case d of
        JObj kvs \<Rightarrow> Inr (case map_of kvs k of None \<Rightarrow> fallback | Some v \<Rightarrow> v)
      | _ \<Rightarrow> Inl AttributeError)"

text \<open>\<^verbatim>\<open>except (json.JSONDecodeError, KeyError, ValueError): return []\<close>\<close>

definition except_return_empty :: "py_error + json \<Rightarrow> py_error + json" where
  "except_return_empty r =
     (case r of
        Inl e \<Rightarrow> (if e \<in> {JSONDecodeError, KeyError, ValueError} then Inr (JArr []) else Inl e)
      | Inr v \<Rightarrow> Inr v)"

definition load_branch_cache :: "cache_file \<Rightarrow> py_error + json" where
  "load_branch_cache f =
     except_return_empty
       (if f = Absent then Inr (JArr [])
        else and_then (json_load f) (\<lambda>cache_data. dict_get cache_data ''branches'' (JArr [])))"

definition get_cached_branches :: "cache_file \<Rightarrow> py_error + json" where
  "get_cached_branches f = load_branch_cache f"

text \<open>
  \<open>for branch in cached_branches\<close> on the value read: a list gives its elements, a
  dictionary its keys, a string its characters; \<open>null\<close>, a boolean and a number are not
  iterable and raise \<open>TypeError\<close>.
\<close>

definition py_iter :: "json \<Rightarrow> py_error + json list" where
  "py_iter v =
     (case v of
        JArr xs \<Rightarrow> Inr xs
      | JObj kvs \<Rightarrow> Inr (map (\<lambda>kv. JStr (fst kv)) kvs)
      | JStr s \<Rightarrow> Inr (map (\<lambda>c. JStr [c]) s)
      | _ \<Rightarrow> Inl TypeError)"

text \<open>
  The first loop of \<open>find_matching_branch\<close> on the elements read: \<open>branch.lower()\<close> raises
  \<open>AttributeError\<close> on an element that is not a string. When this loop ends without a
  return and without raising, every element is a string, and \<open>strings_of\<close> gives them.
\<close>

fun exact_loop :: "string \<Rightarrow> json list \<Rightarrow> py_error + string option" where
  "exact_loop partial_name [] = Inr None"
| "exact_loop partial_name (JStr branch # rest) =
     (if lower branch = lower partial_name then Inr (Some branch)
      else exact_loop partial_name rest)"
| "exact_loop partial_name (_ # rest) = Inl AttributeError"

fun strings_of :: "json list \<Rightarrow> string list" where
  "strings_of [] = []"
| "strings_of (JStr s # rest) = s # strings_of rest"
| "strings_of (_ # rest) = strings_of rest"

text \<open>
  The call \<open>find_matching_branch(partial_name)\<close> in a process whose branch cache file is
  \<open>f\<close> and in which \<open>get_available_branches()\<close>, if it is called, ends as \<open>available\<close>
  (a list, or an exception it lets through). The source reads the history first, tests
  the empty name second, and calls \<open>get_available_branches()\<close> only when no cached
  branch contains the name.
\<close>

definition find_matching_branch_call ::
  "cache_file \<Rightarrow> py_error + string list \<Rightarrow> string \<Rightarrow> py_error + string" where
  "find_matching_branch_call f available partial_name =
     and_then (get_cached_branches f) (\<lambda>cached_branches.
       if partial_name = [] then Inr ''dev''
       else
         and_then (py_iter cached_branches) (\<lambda>items.
         and_then (exact_loop partial_name items) (\<lambda>found.
           case found of
             Some branch \<Rightarrow> Inr branch
           | None \<Rightarrow>
               let branches = strings_of items in
                 if append_each (\<lambda>branch. str_in (lower partial_name) (lower branch))
                      branches [] \<noteq> []
                 then find_matching_branch branches [] partial_name
                 else
                   and_then available (\<lambda>available_branches.
                     find_matching_branch branches available_branches partial_name))))"

section \<open>Properties of the Python primitives\<close>

lemma return_first_find: "return_first P xs = find P xs"
  by (induction xs) simp_all

lemma append_each_filter: "append_each P xs matches = matches @ filter P xs"
  by (induction xs arbitrary: matches) simp_all

lemma find_skip_prefix:
  "\<forall>x \<in> set pre. \<not> P x \<Longrightarrow> find P (pre @ ys) = find P ys"
  by (induction pre) simp_all

lemma min_loop_split:
  assumes "\<forall>x \<in> set pre. key best < key x" and "\<forall>x \<in> set mid. key best \<le> key x"
  shows "\<exists>pre' post'. pre @ best # mid @ xs = pre' @ min_loop key best xs # post' \<and>
           (\<forall>x \<in> set pre'. key (min_loop key best xs) < key x) \<and>
           (\<forall>x \<in> set post'. key (min_loop key best xs) \<le> key x)"
  using assms
proof (induction xs arbitrary: pre best mid)
  case Nil
  then show ?case by auto
next
  case (Cons x xs)
  show ?case
  proof (cases "key x < key best")
    case True
    have a: "\<forall>y \<in> set (pre @ best # mid). key x < key y"
      using True Cons.prems by fastforce
    have b: "\<forall>y \<in> set ([]::'a list). key x \<le> key y" by simp
    from Cons.IH [OF a b] show ?thesis using True by simp
  next
    case False
    have b: "\<forall>y \<in> set (mid @ [x]). key best \<le> key y"
      using False Cons.prems by auto
    from Cons.IH [OF Cons.prems(1) b] show ?thesis using False by simp
  qed
qed

lemma min_loop_first_minimal:
  "find (\<lambda>m. \<forall>x \<in> set (b # xs). key m \<le> key x) (b # xs) = Some (min_loop key b xs)"
proof -
  obtain pre post where s: "b # xs = pre @ min_loop key b xs # post"
    and p: "\<forall>x \<in> set pre. key (min_loop key b xs) < key x"
    and q: "\<forall>x \<in> set post. key (min_loop key b xs) \<le> key x"
    using min_loop_split [of "[]" key b "[]" xs] by auto
  let ?r = "min_loop key b xs"
  let ?P = "\<lambda>m. \<forall>x \<in> set (pre @ ?r # post). key m \<le> key x"
  have "\<forall>x \<in> set pre. \<not> ?P x" using p by auto
  then have "find ?P (pre @ ?r # post) = find ?P (?r # post)"
    by (rule find_skip_prefix)
  moreover have "?P ?r" using p q by (auto intro: less_imp_le)
  ultimately have "find ?P (pre @ ?r # post) = Some ?r" by simp
  then show ?thesis using s by simp
qed

lemma py_min_shortest_of:
  assumes "ms \<noteq> []"
  shows "map_sum id Some (py_min length ms) = Inr (shortest_of ms)"
proof -
  obtain b xs where ms: "ms = b # xs" using assms by (cases ms) auto
  have "shortest_of (b # xs) = Some (min_loop length b xs)"
    unfolding shortest_of_def by (rule min_loop_first_minimal)
  then show ?thesis by (simp add: ms py_min_def)
qed

lemma ci_equal_fun: "ci_equal p = (\<lambda>s. lower s = lower p)"
  by (rule ext) (simp add: ci_equal_def)

lemma ci_contains_fun: "ci_contains p = (\<lambda>s. str_in (lower p) (lower s))"
  by (rule ext) (simp add: ci_contains_def str_in_def)

lemma ci_startswith_fun: "ci_startswith p = (\<lambda>s. startswith (lower s) (lower p))"
  by (rule ext) (simp add: ci_startswith_def startswith_def)

lemma service_cascade_eq:
  "p \<noteq> [] \<Longrightarrow> find_matching_service p C = Inr (spec_cascade shortest_of p C)"
proof (cases "C = []")
  case True
  then show ?thesis by (simp add: find_matching_service_def spec_cascade_def)
next
  case False
  assume p: "p \<noteq> []"
  let ?ms = "filter (ci_contains p) C"
  have ex: "return_first (\<lambda>service. lower service = lower p) C = find (ci_equal p) C"
    by (simp add: return_first_find ci_equal_fun)
  have ms: "append_each (\<lambda>service. str_in (lower p) (lower service)) C [] = ?ms"
    by (simp add: append_each_filter ci_contains_fun)
  have sw: "return_first (\<lambda>m. startswith (lower m) (lower p)) ?ms = find (ci_startswith p) ?ms"
    by (simp add: return_first_find ci_startswith_fun)
  show ?thesis
  proof (cases "find (ci_equal p) C")
    case (Some s)
    then show ?thesis using p False ex
      by (simp add: find_matching_service_def spec_cascade_def)
  next
    case None
    show ?thesis
    proof (cases ?ms)
      case Nil
      then show ?thesis using p False ex ms sw None
        by (simp add: find_matching_service_def spec_cascade_def)
    next
      case (Cons m rest)
      show ?thesis
      proof (cases rest)
        case Nil
        then show ?thesis using p False ex ms sw None Cons
          by (simp add: find_matching_service_def spec_cascade_def index0_def)
      next
        case (Cons m' rest')
        have ne: "?ms \<noteq> []" and l: "length ?ms \<noteq> 1"
          using \<open>?ms = m # rest\<close> Cons by simp_all
        show ?thesis
        proof (cases "find (ci_startswith p) ?ms")
          case None
          then show ?thesis
            using p False ex ms sw \<open>find (ci_equal p) C = None\<close> l
              py_min_shortest_of [OF ne] \<open>?ms = m # rest\<close> Cons
            by (simp add: find_matching_service_def spec_cascade_def)
        next
          case (Some s)
          then show ?thesis
            using p False ex ms sw \<open>find (ci_equal p) C = None\<close> l \<open>?ms = m # rest\<close> Cons
            by (simp add: find_matching_service_def spec_cascade_def)
        qed
      qed
    qed
  qed
qed

section \<open>Service mode\<close>

lemmas string_eval =
  lower_def lower_char_def str_in_def startswith_def endswith_def sublist_Cons_right
  ci_equal_def ci_contains_def ci_startswith_def

text \<open>
  Claim C2. For a non-empty candidate list and a non-empty partial name,
  \<open>find_matching_service\<close> returns without raising and follows the cascade: the first
  candidate equal to the partial name up to letter case; otherwise, among the candidates
  containing it up to letter case, the only one, else the first one starting with it,
  else the shortest one, the earliest among equally short ones; \<open>None\<close> when no
  candidate contains it. Against the empty candidate list the result is \<open>None\<close> for
  every partial name.
\<close>

theorem C2_service_mode_cascade:
  "(p \<noteq> [] \<longrightarrow> find_matching_service p C = Inr (spec_cascade shortest_of p C)) \<and>
   find_matching_service p [] = Inr None"
  by (simp add: service_cascade_eq) (simp add: find_matching_service_def)

theorem C2_service_mode_cascade_witness:
  "''eu'' \<noteq> [] \<and>
   find_matching_service ''eu'' [''xEurex'', ''aeur'', ''beur''] = Inr (Some ''aeur'') \<and>
   find_matching_service ''eu'' [] = Inr None"
  using C2_service_mode_cascade [of "''eu''" "[''xEurex'', ''aeur'', ''beur'']"]
  by (simp add: spec_cascade_def shortest_of_def string_eval)

text \<open>
  Claim C10. With the empty partial name \<open>find_matching_service\<close> returns \<open>None\<close> for
  every candidate list: the guard at its head returns before any candidate is compared.
\<close>

theorem C10_service_mode_empty_partial:
  "find_matching_service [] C = Inr None"
  by (simp add: find_matching_service_def)

section \<open>Branch mode\<close>

lemma shortest_of_Cons: "shortest_of (b # xs) = Some (min_loop length b xs)"
  unfolding shortest_of_def by (rule min_loop_first_minimal)

lemma py_min_Cons: "py_min key (b # xs) = Inr (min_loop key b xs)"
  by (simp add: py_min_def)

lemma branch_cascade_eq:
  "p \<noteq> [] \<Longrightarrow>
   find_matching_branch cached avail p =
     Inr (case spec_cascade first_of p cached of
            Some b \<Rightarrow> b
          | None \<Rightarrow> (case spec_cascade shortest_of p avail of Some b \<Rightarrow> b | None \<Rightarrow> p))"
  by (simp add: find_matching_branch_def spec_cascade_def return_first_find append_each_filter
        ci_equal_fun ci_contains_fun ci_startswith_fun Let_def index0_def first_of_def
        shortest_of_Cons py_min_Cons
      split: option.splits list.splits)

lemma ci_equal_contains: "ci_equal p s \<Longrightarrow> ci_contains p s"
  by (simp add: ci_equal_def ci_contains_def)

lemma spec_cascade_no_match:
  assumes "\<forall>s \<in> set C. \<not> ci_contains p s"
  shows "spec_cascade residual p C = None"
proof -
  have "find (ci_equal p) C = None"
    using assms by (auto simp: find_None_iff dest: ci_equal_contains)
  moreover have "filter (ci_contains p) C = []"
    using assms by (simp add: filter_empty_conv)
  ultimately show ?thesis by (simp add: spec_cascade_def)
qed

text \<open>
  Claim C1. For a non-empty partial name, \<open>find_matching_branch\<close> runs the cascade (exact
  match up to letter case, else the only candidate containing the name, else the first
  such candidate starting with it) on the cached history first, where several remaining
  candidates give the first, most recent one; only when the history has no candidate it
  runs the same cascade on the fallback list, where several remaining candidates give
  the shortest one. With an empty history and the fallback list dev, main, master,
  develop, release, the partial name \<open>mai\<close> resolves to \<open>main\<close>.
\<close>

theorem C1_branch_mode_two_tiers:
  "(p \<noteq> [] \<longrightarrow>
      find_matching_branch cached avail p =
        Inr (case spec_cascade first_of p cached of
               Some b \<Rightarrow> b
             | None \<Rightarrow>
                 (case spec_cascade shortest_of p avail of Some b \<Rightarrow> b | None \<Rightarrow> p))) \<and>
   find_matching_branch [] default_branches ''mai'' = Inr ''main''"
proof
  show "p \<noteq> [] \<longrightarrow>
      find_matching_branch cached avail p =
        Inr (case spec_cascade first_of p cached of
               Some b \<Rightarrow> b
             | None \<Rightarrow>
                 (case spec_cascade shortest_of p avail of Some b \<Rightarrow> b | None \<Rightarrow> p))"
    by (simp add: branch_cascade_eq)
  have "find_matching_branch [] default_branches ''mai'' =
        Inr (case spec_cascade first_of ''mai'' [] of
               Some b \<Rightarrow> b
             | None \<Rightarrow>
                 (case spec_cascade shortest_of ''mai'' default_branches of
                    Some b \<Rightarrow> b | None \<Rightarrow> ''mai''))"
    by (rule branch_cascade_eq) simp
  then show "find_matching_branch [] default_branches ''mai'' = Inr ''main''"
    by (simp add: spec_cascade_def default_branches_def string_eval)
qed

theorem C1_branch_mode_two_tiers_witness:
  "''mai'' \<noteq> [] \<and>
   find_matching_branch [''feature/xmai-2'', ''fix/ymai''] default_branches ''mai''
     = Inr ''feature/xmai-2'' \<and>
   find_matching_branch [''feature/login''] [''xmaster-long'', ''amas'', ''bmas''] ''mas''
     = Inr ''amas''"
  using C1_branch_mode_two_tiers [of "''mai''" "[''feature/xmai-2'', ''fix/ymai'']" default_branches]
    C1_branch_mode_two_tiers [of "''mas''" "[''feature/login'']" "[''xmaster-long'', ''amas'', ''bmas'']"]
  by (simp add: spec_cascade_def first_of_def shortest_of_def string_eval)

text \<open>
  On lists of strings the function from its guard onwards never raises: it returns
  \<open>dev\<close> for the empty name, and the name itself when no branch of either list contains
  it up to letter case.
\<close>

lemma branch_mode_total_on_lists:
  "find_matching_branch cached avail [] = Inr ''dev'' \<and>
   (p \<noteq> [] \<and> (\<forall>b \<in> set cached. \<not> ci_contains p b) \<and> (\<forall>b \<in> set avail. \<not> ci_contains p b)
      \<longrightarrow> find_matching_branch cached avail p = Inr p) \<and>
   (\<exists>b. find_matching_branch cached avail p = Inr b)"
proof (intro conjI impI)
  show "find_matching_branch cached avail [] = Inr ''dev''"
    by (simp add: find_matching_branch_def)
  show "\<exists>b. find_matching_branch cached avail p = Inr b"
  proof (cases "p = []")
    case True
    then show ?thesis by (simp add: find_matching_branch_def)
  next
    case False
    then show ?thesis using branch_cascade_eq [of p cached avail] by blast
  qed
next
  assume a: "p \<noteq> [] \<and> (\<forall>b \<in> set cached. \<not> ci_contains p b) \<and>
    (\<forall>b \<in> set avail. \<not> ci_contains p b)"
  then have "spec_cascade first_of p cached = None" "spec_cascade shortest_of p avail = None"
    by (simp_all add: spec_cascade_no_match)
  then show "find_matching_branch cached avail p = Inr p"
    using a branch_cascade_eq [of p cached avail] by simp
qed

subsection \<open>The call, with the read of the history\<close>

lemma exact_loop_strings:
  "exact_loop p (map JStr bs) = Inr (return_first (\<lambda>branch. lower branch = lower p) bs)"
  by (induction bs) simp_all

lemma strings_of_strings: "strings_of (map JStr bs) = bs"
  by (induction bs) simp_all

lemma cache_tier_decides:
  assumes "append_each (\<lambda>branch. str_in (lower p) (lower branch)) bs [] \<noteq> []"
  shows "find_matching_branch bs avail p = find_matching_branch bs [] p"
  using assms by (simp add: find_matching_branch_def Let_def split: option.splits)

lemmas call_eval =
  find_matching_branch_call_def get_cached_branches_def load_branch_cache_def
  except_return_empty_def and_then_def json_load_def dict_get_def py_iter_def

text \<open>
  For a cache file as \<open>save_branch_cache\<close> writes it, an absent one and an undecodable
  one, and a fallback that returns a list, the call is the function on lists.
\<close>

lemma call_on_written_file:
  "find_matching_branch_call (Document (JObj [(''branches'', JArr (map JStr bs))])) (Inr avail) p =
     find_matching_branch bs avail p"
proof (cases "p = []")
  case True
  then show ?thesis by (simp add: call_eval find_matching_branch_def)
next
  case False
  show ?thesis
  proof (cases "return_first (\<lambda>branch. lower branch = lower p) bs")
    case (Some branch)
    then show ?thesis using False
      by (simp add: call_eval exact_loop_strings find_matching_branch_def)
  next
    case None
    then show ?thesis using False cache_tier_decides [of p bs avail]
      by (simp add: call_eval exact_loop_strings strings_of_strings Let_def)
  qed
qed

lemma call_on_absent_or_garbled:
  "find_matching_branch_call Absent (Inr avail) p = find_matching_branch [] avail p"
  "find_matching_branch_call Garbled (Inr avail) p = find_matching_branch [] avail p"
  by (simp_all add: call_eval find_matching_branch_def)

text \<open>
  Claim C6. The claim holds of the function from its guard onwards, on lists of strings
  (lemma \<open>branch_mode_total_on_lists\<close>), and of the call for the cache files above. It
  fails for the call as a whole, because the history is read before the empty name is
  tested and \<open>load_branch_cache\<close> catches three exceptions only: with a cache file that
  exists but cannot be opened the call raises \<open>OSError\<close>, and with a decodable document
  that is not a JSON object it raises \<open>AttributeError\<close>, both even for the empty name,
  where the claim promises \<open>dev\<close>. With a \<open>branches\<close> member holding a number, or a list
  holding a number, a non-empty name raises \<open>TypeError\<close> or \<open>AttributeError\<close> inside
  \<open>find_matching_branch\<close> itself.
\<close>

theorem C6_find_matching_branch_raises:
  "find_matching_branch_call No_access available [] = Inl OSError \<and>
   find_matching_branch_call (Document (JArr [])) available [] = Inl AttributeError \<and>
   find_matching_branch_call (Document (JObj [(''branches'', JNum 1)])) available ''main'' =
     Inl TypeError \<and>
   find_matching_branch_call (Document (JObj [(''branches'', JArr [JNum 1])])) available ''main'' =
     Inl AttributeError"
  by (simp add: call_eval)

section \<open>Job mode\<close>

lemma index0_filter: "find P xs = Some x \<Longrightarrow> index0 (filter P xs) = Inr x"
  by (induction xs) (auto simp: index0_def split: if_splits)

lemma filter_Nil_find: "(filter P xs = []) = (find P xs = None)"
  by (induction xs) auto

lemma lower_append: "lower (a @ b) = lower a @ lower b"
  by (simp add: lower_def)

lemma lower_test_collateral: "lower ''test-collateral-'' = ''test-collateral-''"
  by (simp add: lower_def lower_char_def)

lemma ci_startswith_job_prefix:
  "ci_startswith (''test-collateral-'' @ q) s =
     startswith (lower s) (''test-collateral-'' @ lower q)"
  by (simp only: ci_startswith_def startswith_def lower_append lower_test_collateral)

text \<open>
  The replacement of \<open>matching_jobs\<close> by the first non-empty one of three sublists,
  followed by \<open>[0]\<close>, picks the first element satisfying the first predicate that any
  element satisfies.
\<close>

lemma preference_ladder:
  assumes "ms \<noteq> []"
  shows "map_sum id Some
           (index0
             (if 1 < length ms then
                if filter E ms \<noteq> [] then filter E ms
                else if filter T ms \<noteq> [] then filter T ms
                else if filter S ms \<noteq> [] then filter S ms else ms
              else ms)) =
         Inr (case find E ms of
                Some j \<Rightarrow> Some j
              | None \<Rightarrow>
                  (case find T ms of
                     Some j \<Rightarrow> Some j
                   | None \<Rightarrow>
                       (case find S ms of
                          Some j \<Rightarrow> Some j
                        | None \<Rightarrow> (case ms of [] \<Rightarrow> None | j # _ \<Rightarrow> Some j))))"
proof (cases "1 < length ms")
  case True
  obtain m rest where ms: "ms = m # rest" using assms by (cases ms) auto
  have whole: "index0 ms = Inr m" by (simp add: ms index0_def)
  show ?thesis
  proof (cases "find E ms")
    case (Some j)
    then show ?thesis using True by (simp add: filter_Nil_find index0_filter)
  next
    case None
    note e = None
    show ?thesis
    proof (cases "find T ms")
      case (Some j)
      then show ?thesis using True e by (simp add: filter_Nil_find index0_filter)
    next
      case None
      note t = None
      show ?thesis
      proof (cases "find S ms")
        case (Some j)
        then show ?thesis using True e t by (simp add: filter_Nil_find index0_filter)
      next
        case None
        then show ?thesis using True e t whole by (simp add: filter_Nil_find) (simp add: ms)
      qed
    qed
  qed
next
  case False
  then obtain m where ms: "ms = [m]" using assms by (cases ms) auto
  show ?thesis by (simp add: ms index0_def)
qed

lemma job_mode_eq: "select_build_job q build_jobs = Inr (spec_job_mode q build_jobs)"
proof -
  let ?ms = "filter (\<lambda>j. ci_contains q (name j)) build_jobs"
  show ?thesis
  proof (cases "?ms = []")
    case True
    then show ?thesis
      by (simp add: select_build_job_def spec_job_mode_def append_each_filter Let_def
          ci_contains_fun)
  next
    case False
    have "select_build_job q build_jobs =
       map_sum id Some
         (index0
           (if 1 < length ?ms then
              if filter (\<lambda>j. ci_equal q (name j)) ?ms \<noteq> []
              then filter (\<lambda>j. ci_equal q (name j)) ?ms
              else if filter (\<lambda>j. ci_startswith (''test-collateral-'' @ q) (name j)) ?ms \<noteq> []
              then filter (\<lambda>j. ci_startswith (''test-collateral-'' @ q) (name j)) ?ms
              else if filter (\<lambda>j. ci_startswith q (name j)) ?ms \<noteq> []
              then filter (\<lambda>j. ci_startswith q (name j)) ?ms
              else ?ms
            else ?ms))"
      using False
      by (simp only: ci_startswith_job_prefix)
        (simp add: select_build_job_def append_each_filter Let_def
          ci_contains_fun ci_equal_def ci_startswith_fun
          del: append_Cons filter_filter)
    also have "\<dots> = Inr (spec_job_mode q build_jobs)"
      unfolding spec_job_mode_def Let_def by (rule preference_ladder [OF False])
    finally show ?thesis .
  qed
qed

text \<open>
  Claim C3. Among the build jobs whose name contains the query up to letter case, the
  \<open>build\<close> command selects an exact match up to letter case, else the first name
  starting with \<open>test-collateral-\<close> followed by the query, else the first name starting
  with the query, else the first candidate; with no such job it selects none. Both
  \<open>test-collateral-eurex-build\<close> and \<open>test-collateral-eurex-report-build\<close> are build
  jobs, and the query \<open>eurex\<close> selects \<open>test-collateral-eurex-build\<close> among them.
\<close>

theorem C3_job_mode_selection:
  "select_build_job q build_jobs = Inr (spec_job_mode q build_jobs) \<and>
   build_jobs_of
     [\<lparr>name = ''test-collateral-eurex-build'', url = [], color = ''blue''\<rparr>,
      \<lparr>name = ''test-collateral-eurex-report-build'', url = [], color = ''red''\<rparr>] =
     [\<lparr>name = ''test-collateral-eurex-build'', url = [], color = ''blue''\<rparr>,
      \<lparr>name = ''test-collateral-eurex-report-build'', url = [], color = ''red''\<rparr>] \<and>
   select_build_job ''eurex''
     [\<lparr>name = ''test-collateral-eurex-build'', url = [], color = ''blue''\<rparr>,
      \<lparr>name = ''test-collateral-eurex-report-build'', url = [], color = ''red''\<rparr>] =
     Inr (Some \<lparr>name = ''test-collateral-eurex-build'', url = [], color = ''blue''\<rparr>)"
proof (intro conjI)
  show "select_build_job q build_jobs = Inr (spec_job_mode q build_jobs)"
    by (rule job_mode_eq)
  show "build_jobs_of
     [\<lparr>name = ''test-collateral-eurex-build'', url = [], color = ''blue''\<rparr>,
      \<lparr>name = ''test-collateral-eurex-report-build'', url = [], color = ''red''\<rparr>] =
     [\<lparr>name = ''test-collateral-eurex-build'', url = [], color = ''blue''\<rparr>,
      \<lparr>name = ''test-collateral-eurex-report-build'', url = [], color = ''red''\<rparr>]"
    by (simp add: build_jobs_of_def string_eval suffix_def)
  show "select_build_job ''eurex''
     [\<lparr>name = ''test-collateral-eurex-build'', url = [], color = ''blue''\<rparr>,
      \<lparr>name = ''test-collateral-eurex-report-build'', url = [], color = ''red''\<rparr>] =
     Inr (Some \<lparr>name = ''test-collateral-eurex-build'', url = [], color = ''blue''\<rparr>)"
    by (simp add: job_mode_eq spec_job_mode_def string_eval)
qed

section \<open>Service extraction\<close>

lemma max_loop_split:
  assumes "\<forall>x \<in> set pre. key x < key best" and "\<forall>x \<in> set mid. key x \<le> key best"
  shows "\<exists>pre' post'. pre @ best # mid @ xs = pre' @ max_loop key best xs # post' \<and>
           (\<forall>x \<in> set pre'. key x < key (max_loop key best xs)) \<and>
           (\<forall>x \<in> set post'. key x \<le> key (max_loop key best xs))"
  using assms
proof (induction xs arbitrary: pre best mid)
  case Nil
  then show ?case by auto
next
  case (Cons x xs)
  show ?case
  proof (cases "key best < key x")
    case True
    have a: "\<forall>y \<in> set (pre @ best # mid). key y < key x"
      using True Cons.prems by fastforce
    have b: "\<forall>y \<in> set ([]::'a list). key y \<le> key x" by simp
    from Cons.IH [OF a b] show ?thesis using True by simp
  next
    case False
    have b: "\<forall>y \<in> set (mid @ [x]). key y \<le> key best"
      using False Cons.prems by auto
    from Cons.IH [OF Cons.prems(1) b] show ?thesis using False by simp
  qed
qed

lemma max_loop_first_maximal:
  "find (\<lambda>m. \<forall>x \<in> set (b # xs). key x \<le> key m) (b # xs) = Some (max_loop key b xs)"
proof -
  obtain pre post where s: "b # xs = pre @ max_loop key b xs # post"
    and p: "\<forall>x \<in> set pre. key x < key (max_loop key b xs)"
    and q: "\<forall>x \<in> set post. key x \<le> key (max_loop key b xs)"
    using max_loop_split [of "[]" key b "[]" xs] by auto
  let ?r = "max_loop key b xs"
  let ?P = "\<lambda>m. \<forall>x \<in> set (pre @ ?r # post). key x \<le> key m"
  have "\<forall>x \<in> set pre. \<not> ?P x" using p by auto
  then have "find ?P (pre @ ?r # post) = find ?P (?r # post)"
    by (rule find_skip_prefix)
  moreover have "?P ?r" using p q by (auto intro: less_imp_le)
  ultimately have "find ?P (pre @ ?r # post) = Some ?r" by simp
  then show ?thesis using s by simp
qed

lemma find_filter_conj: "find P (filter Q xs) = find (\<lambda>x. Q x \<and> P x) xs"
  by (induction xs) simp_all

lemma extract_service_longest:
  assumes "\<exists>e \<in> set catalog. str_in e job_name"
  shows "\<exists>r. extract_service catalog job_name = Inr r \<and>
              spec_longest_entry catalog job_name = Some r"
proof -
  let ?ms = "filter (\<lambda>e. sublist e job_name) catalog"
  have "?ms \<noteq> []" using assms by (auto simp: filter_empty_conv str_in_def)
  then obtain b xs where ms: "?ms = b # xs" by (cases ?ms) auto
  have "extract_service catalog job_name = Inr (max_loop length b xs)"
    by (simp add: extract_service_def append_each_filter str_in_def ms py_max_def)
  moreover have "(\<lambda>e. sublist e job_name \<and>
        (\<forall>x \<in> set catalog. sublist x job_name \<longrightarrow> length x \<le> length e)) =
      (\<lambda>e. sublist e job_name \<and> (\<forall>x \<in> set ?ms. length x \<le> length e))"
    by (rule ext) auto
  then have "spec_longest_entry catalog job_name =
      find (\<lambda>m. \<forall>x \<in> set ?ms. length x \<le> length m) ?ms"
    by (simp only: spec_longest_entry_def find_filter_conj)
  then have "spec_longest_entry catalog job_name = Some (max_loop length b xs)"
    by (simp only: ms max_loop_first_maximal)
  ultimately show ?thesis by simp
qed

lemma extract_service_fallback:
  assumes "\<forall>e \<in> set catalog. \<not> str_in e job_name"
  shows "extract_service catalog job_name =
     Inr (if startswith job_name ''test-collateral-''
          then str_replace ''-build'' [] (str_replace ''test-collateral-'' [] job_name)
          else job_name)"
proof -
  have "filter (\<lambda>e. str_in e job_name) catalog = []"
    using assms by (simp add: filter_empty_conv)
  then show ?thesis by (simp add: extract_service_def append_each_filter)
qed

lemma str_replace_absent: "\<not> sublist old t \<Longrightarrow> str_replace old new t = t"
proof (induction t)
  case Nil
  then show ?case by auto
next
  case (Cons c cs)
  then have "old \<noteq> []" "\<not> prefix old (c # cs)" "\<not> sublist old cs"
    by (auto simp: sublist_Cons_right)
  with Cons.IH show ?case by simp
qed

lemma str_replace_leading: "old \<noteq> [] \<Longrightarrow> str_replace old [] (old @ t) = str_replace old [] t"
  by (cases old) simp_all

lemma str_replace_trailing:
  assumes "old \<noteq> []" and "\<not> sublist old (s @ butlast old)"
  shows "str_replace old [] (s @ old) = s"
  using assms(2)
proof (induction s)
  case Nil
  have "str_replace old [] (old @ []) = str_replace old [] []"
    using assms(1) by (rule str_replace_leading)
  then show ?case using assms(1) by simp
next
  case (Cons c cs)
  have np: "\<not> prefix old (c # cs @ old)"
  proof
    assume "prefix old (c # cs @ old)"
    then have "prefix old (((c # cs) @ butlast old) @ [last old])"
      using assms(1) by simp
    then have "old = ((c # cs) @ butlast old) @ [last old] \<or> prefix old ((c # cs) @ butlast old)"
      by (simp only: prefix_snoc)
    moreover have "old \<noteq> ((c # cs) @ butlast old) @ [last old]"
    proof
      assume "old = ((c # cs) @ butlast old) @ [last old]"
      then have "length old = length (((c # cs) @ butlast old) @ [last old])"
        by (rule arg_cong)
      then show False using assms(1) by simp
    qed
    ultimately have "prefix old ((c # cs) @ butlast old)" by blast
    then show False using Cons.prems by auto
  qed
  have "\<not> sublist old (cs @ butlast old)"
    using Cons.prems by (auto simp: sublist_Cons_right)
  with Cons.IH np assms(1) show ?case by simp
qed

lemma strip_both_literals:
  assumes "\<not> str_in ''test-collateral-'' (s @ ''-build'')"
    and "\<not> str_in ''-build'' (s @ ''-buil'')"
  shows "str_replace ''-build'' [] (str_replace ''test-collateral-'' [] (''test-collateral-'' @ s @ ''-build'')) = s"
proof -
  have "str_replace ''test-collateral-'' [] (''test-collateral-'' @ s @ ''-build'') =
        str_replace ''test-collateral-'' [] (s @ ''-build'')"
    by (rule str_replace_leading) simp
  also have "\<dots> = s @ ''-build''"
    using assms(1) unfolding str_in_def by (rule str_replace_absent)
  finally have "str_replace ''test-collateral-'' [] (''test-collateral-'' @ s @ ''-build'') = s @ ''-build''" .
  moreover have "str_replace ''-build'' [] (s @ ''-build'') = s"
    using assms(2) by (intro str_replace_trailing) (simp_all add: str_in_def)
  ultimately show ?thesis by (simp only:)
qed

text \<open>
  Claim C5. When at least one entry of the catalogue occurs in the job name, the
  extracted service is the longest such entry, the first in catalogue order among
  equally long ones; for the job \<open>test-collateral-eurex-build\<close> and the catalogue
  \<open>eurex\<close>, \<open>eur\<close> it is \<open>eurex\<close>.
\<close>

theorem C5_service_longest_match:
  "((\<exists>e \<in> set catalog. str_in e job_name) \<longrightarrow>
      (\<exists>r. extract_service catalog job_name = Inr r \<and>
           spec_longest_entry catalog job_name = Some r)) \<and>
   extract_service [''eurex'', ''eur''] ''test-collateral-eurex-build'' = Inr ''eurex''"
proof
  show "(\<exists>e \<in> set catalog. str_in e job_name) \<longrightarrow>
      (\<exists>r. extract_service catalog job_name = Inr r \<and>
           spec_longest_entry catalog job_name = Some r)"
    using extract_service_longest by blast
  show "extract_service [''eurex'', ''eur''] ''test-collateral-eurex-build'' = Inr ''eurex''"
    by (simp add: extract_service_def py_max_def str_in_def sublist_Cons_right)
qed

theorem C5_service_longest_match_witness:
  "(\<exists>e \<in> set [''eur'', ''eurex'', ''build'']. str_in e ''test-collateral-eurex-build'') \<and>
   extract_service [''eur'', ''eurex'', ''build''] ''test-collateral-eurex-build'' = Inr ''eurex'' \<and>
   spec_longest_entry [''eur'', ''eurex'', ''build''] ''test-collateral-eurex-build'' = Some ''eurex''"
  using C5_service_longest_match [of "[''eur'', ''eurex'', ''build'']" "''test-collateral-eurex-build''"]
  by (simp add: spec_longest_entry_def str_in_def sublist_Cons_right)

text \<open>
  Claim C4, as the code has it. When no entry of the catalogue occurs in the job name:
  a job name starting with \<open>test-collateral-\<close> yields the name with every occurrence of
  \<open>test-collateral-\<close> deleted and then every occurrence of \<open>-build\<close> deleted, whether or
  not the name ends with \<open>-build\<close>; any other job name is returned unchanged. For a name
  \<open>test-collateral-\<close> + s + \<open>-build\<close> in which the two literals occur nowhere else this
  is s; \<open>test-collateral-unknownthing-build\<close> with the catalogue \<open>eurex\<close> yields
  \<open>unknownthing\<close>.
\<close>

theorem C4_service_fallback_replaces:
  "((\<forall>e \<in> set catalog. \<not> str_in e job_name) \<longrightarrow>
      extract_service catalog job_name =
        Inr (if startswith job_name ''test-collateral-''
             then str_replace ''-build'' [] (str_replace ''test-collateral-'' [] job_name)
             else job_name)) \<and>
   ((\<forall>e \<in> set catalog. \<not> str_in e (''test-collateral-'' @ s @ ''-build'')) \<and>
    \<not> str_in ''test-collateral-'' (s @ ''-build'') \<and> \<not> str_in ''-build'' (s @ ''-buil'') \<longrightarrow>
      extract_service catalog (''test-collateral-'' @ s @ ''-build'') = Inr s) \<and>
   extract_service [''eurex''] ''test-collateral-unknownthing-build'' = Inr ''unknownthing''"
proof (intro conjI impI)
  assume "\<forall>e \<in> set catalog. \<not> str_in e job_name"
  then show "extract_service catalog job_name =
        Inr (if startswith job_name ''test-collateral-''
             then str_replace ''-build'' [] (str_replace ''test-collateral-'' [] job_name)
             else job_name)"
    by (rule extract_service_fallback)
next
  assume a: "(\<forall>e \<in> set catalog. \<not> str_in e (''test-collateral-'' @ s @ ''-build'')) \<and>
    \<not> str_in ''test-collateral-'' (s @ ''-build'') \<and> \<not> str_in ''-build'' (s @ ''-buil'')"
  then have "extract_service catalog (''test-collateral-'' @ s @ ''-build'') =
      Inr (if startswith (''test-collateral-'' @ s @ ''-build'') ''test-collateral-''
           then str_replace ''-build'' []
                  (str_replace ''test-collateral-'' [] (''test-collateral-'' @ s @ ''-build''))
           else ''test-collateral-'' @ s @ ''-build'')"
    by (intro extract_service_fallback) simp
  moreover have "startswith (''test-collateral-'' @ s @ ''-build'') ''test-collateral-''"
    unfolding startswith_def by (rule prefixI) (rule refl)
  moreover have "str_replace ''-build'' []
      (str_replace ''test-collateral-'' [] (''test-collateral-'' @ s @ ''-build'')) = s"
    using a by (intro strip_both_literals) blast+
  ultimately show "extract_service catalog (''test-collateral-'' @ s @ ''-build'') = Inr s"
    by (simp only: if_True)
next
  show "extract_service [''eurex''] ''test-collateral-unknownthing-build'' = Inr ''unknownthing''"
    by (simp add: extract_service_def str_in_def startswith_def sublist_Cons_right)
qed

theorem C4_service_fallback_replaces_witness:
  "\<not> str_in ''eurex'' ''test-collateral-collateral-api-build'' \<and>
   \<not> str_in ''test-collateral-'' ''collateral-api-build'' \<and>
   \<not> str_in ''-build'' ''collateral-api-buil'' \<and>
   extract_service [''eurex''] ''test-collateral-collateral-api-build'' = Inr ''collateral-api''"
  using C4_service_fallback_replaces
    [of "[''eurex'']" "''test-collateral-collateral-api-build''" "''collateral-api''"]
  by (simp add: str_in_def startswith_def sublist_Cons_right)

theorem C4_service_fallback_counterexample:
  "\<not> str_in ''eurex'' ''test-collateral-rebuild-all'' \<and>
   startswith ''test-collateral-rebuild-all'' ''test-collateral-'' \<and>
   \<not> endswith ''test-collateral-rebuild-all'' ''-build'' \<and>
   extract_service [''eurex''] ''test-collateral-rebuild-all'' = Inr ''rebuild-all'' \<and>
   extract_service [''eurex''] ''test-collateral-rebuild-all'' \<noteq> Inr ''test-collateral-rebuild-all''"
  by (simp add: extract_service_def str_in_def startswith_def endswith_def suffix_def
      sublist_Cons_right)

section \<open>Branch history: invariants and recency order\<close>


lemma add_branch_written:
  "lower n \<noteq> ''dev'' \<Longrightarrow> add_branch_to_cache Written n h = Inr (take 50 (n # remove1 n h))"
  by (simp add: add_branch_to_cache_def and_then_def list_remove_def save_branch_cache_def
      remove1_idem)

lemma add_branch_result:
  "lower n \<noteq> ''dev'' \<Longrightarrow>
   add_branch_to_cache w n h =
     Inr (case w of Written \<Rightarrow> take 50 (n # remove1 n h) | Open_failed \<Rightarrow> h | Dump_failed \<Rightarrow> [])"
  by (simp add: add_branch_to_cache_def and_then_def list_remove_def save_branch_cache_def
      remove1_idem split: write_outcome.splits)

lemma add_branch_dev: "lower n = ''dev'' \<Longrightarrow> add_branch_to_cache w n h = Inr h"
  by (simp add: add_branch_to_cache_def)

lemma history_ok_touch:
  assumes "history_ok h" and "lower n \<noteq> ''dev''"
  shows "history_ok (take 50 (n # remove1 n h))"
proof -
  have d: "distinct (n # remove1 n h)" using assms(1) by (simp add: history_ok_def)
  have "set (take 50 (n # remove1 n h)) \<subseteq> insert n (set h)"
    using set_take_subset [of 50 "n # remove1 n h"] set_remove1_subset [of n h] by auto
  then have "\<forall>b \<in> set (take 50 (n # remove1 n h)). lower b \<noteq> ''dev''"
    using assms by (auto simp: history_ok_def)
  moreover have "distinct (take 50 (n # remove1 n h))"
    using d by (rule distinct_take)
  ultimately show ?thesis unfolding history_ok_def by simp
qed

lemma history_preserved:
  assumes "history_ok h"
  shows "\<exists>h'. add_branch_to_cache w n h = Inr h' \<and> history_ok h'"
proof (cases "lower n = ''dev''")
  case True
  then show ?thesis using assms by (simp add: add_branch_dev)
next
  case False
  show ?thesis
  proof (cases w)
    case Written
    then show ?thesis using False assms
      by (simp add: add_branch_result history_ok_touch del: take_Cons_numeral)
  next
    case Open_failed
    then show ?thesis using False assms by (simp add: add_branch_result)
  next
    case Dump_failed
    then show ?thesis using False by (simp add: add_branch_result history_ok_def)
  qed
qed

lemma take_remove1_take: "take k (remove1 x (take (Suc k) xs)) = take k (remove1 x xs)"
proof (induction xs arbitrary: k)
  case Nil
  then show ?case by simp
next
  case (Cons y ys)
  show ?case
  proof (cases k)
    case 0
    then show ?thesis by simp
  next
    case (Suc m)
    then show ?thesis using Cons.IH [of m] by simp
  qed
qed

lemma touch_take: "take 50 (n # remove1 n (take 50 X)) = take 50 (n # remove1 n X)"
  using take_remove1_take [of 49 n X] by (simp add: eval_nat_numeral)

lemma touch_all_take:
  "\<forall>n \<in> set ns. lower n \<noteq> ''dev'' \<Longrightarrow>
   touch_all ns (take 50 X) = Inr (take 50 (foldl (\<lambda>h n. n # remove1 n h) X ns))"
proof (induction ns arbitrary: X)
  case Nil
  then show ?case by simp
next
  case (Cons n ns)
  have "touch_all (n # ns) (take 50 X) = touch_all ns (take 50 (n # remove1 n X))"
    using Cons.prems
    by (simp add: add_branch_written and_then_def touch_take del: take_Cons_numeral)
  also have "\<dots> = Inr (take 50 (foldl (\<lambda>h n. n # remove1 n h) (n # remove1 n X) ns))"
    using Cons.prems by (intro Cons.IH) simp
  finally show ?case by (simp only: foldl_Cons)
qed

lemma touch_all_nonempty:
  assumes "\<forall>n \<in> set ns. lower n \<noteq> ''dev''" and "ns \<noteq> []"
  shows "touch_all ns h = Inr (take 50 (foldl (\<lambda>h n. n # remove1 n h) h ns))"
proof -
  obtain n rest where ns: "ns = n # rest" using assms(2) by (cases ns) auto
  have "touch_all ns h = touch_all rest (take 50 (n # remove1 n h))"
    using assms(1) by (simp add: ns add_branch_written and_then_def del: take_Cons_numeral)
  also have "\<dots> = Inr (take 50 (foldl (\<lambda>h n. n # remove1 n h) (n # remove1 n h) rest))"
    using assms(1) by (intro touch_all_take) (simp add: ns)
  finally show ?thesis by (simp only: ns foldl_Cons)
qed

lemma foldl_move_front:
  "distinct ns \<Longrightarrow> set A \<inter> set ns = {} \<Longrightarrow>
   \<exists>B. foldl (\<lambda>h n. n # remove1 n h) (A @ h) ns = rev ns @ A @ B"
proof (induction ns arbitrary: A h)
  case Nil
  then show ?case by simp
next
  case (Cons n ns)
  have nA: "n \<notin> set A" using Cons.prems by auto
  then have "n # remove1 n (A @ h) = (n # A) @ remove1 n h"
    by (simp add: remove1_append)
  moreover have "set (n # A) \<inter> set ns = {}" using Cons.prems by auto
  moreover have "distinct ns" using Cons.prems by simp
  ultimately obtain B where
    "foldl (\<lambda>h n. n # remove1 n h) (n # remove1 n (A @ h)) ns = rev ns @ (n # A) @ B"
    using Cons.IH [of "n # A" "remove1 n h"] by auto
  then show ?case by auto
qed

lemma touch_fifty_or_more:
  assumes "distinct ns" and "50 \<le> length ns" and "\<forall>n \<in> set ns. lower n \<noteq> ''dev''"
  shows "touch_all ns h = Inr (take 50 (rev ns))"
proof -
  have ne: "ns \<noteq> []" using assms(2) by auto
  obtain B where "foldl (\<lambda>h n. n # remove1 n h) h ns = rev ns @ B"
    using foldl_move_front [OF assms(1), of "[]" h] by auto
  then have "touch_all ns h = Inr (take 50 (rev ns @ B))"
    using touch_all_nonempty [OF assms(3) ne, of h] by (simp only:)
  then show ?thesis using assms(2) by simp
qed


lemma touch_twice:
  assumes "lower n \<noteq> ''dev''"
  shows "touch_all [n, n] h = Inr (take 50 (n # remove1 n h))"
proof -
  have "touch_all [n, n] h = Inr (take 50 (foldl (\<lambda>h n. n # remove1 n h) h [n, n]))"
    using assms by (intro touch_all_nonempty) simp_all
  then show ?thesis by simp
qed

text \<open>
  Claim C7. From a history of at most 50 names, none of them \<open>dev\<close> up to letter case
  and no name twice, \<open>add_branch_to_cache\<close> returns without raising and leaves a
  history with the same three properties, whatever the name and whether or not the
  write succeeds. A name equal to \<open>dev\<close> up to letter case, such as \<open>dev\<close>, \<open>Dev\<close> and
  \<open>DEV\<close>, leaves the history as it is.
\<close>

theorem C7_history_invariants_preserved:
  "(history_ok h \<longrightarrow> (\<exists>h'. add_branch_to_cache w n h = Inr h' \<and> history_ok h')) \<and>
   (lower n = ''dev'' \<longrightarrow> add_branch_to_cache w n h = Inr h) \<and>
   add_branch_to_cache w ''dev'' h = Inr h \<and>
   add_branch_to_cache w ''Dev'' h = Inr h \<and>
   add_branch_to_cache w ''DEV'' h = Inr h"
proof (intro conjI impI)
  assume "history_ok h"
  then show "\<exists>h'. add_branch_to_cache w n h = Inr h' \<and> history_ok h'"
    by (rule history_preserved)
next
  assume "lower n = ''dev''"
  then show "add_branch_to_cache w n h = Inr h" by (rule add_branch_dev)
next
  show "add_branch_to_cache w ''dev'' h = Inr h"
    by (rule add_branch_dev) (simp add: lower_def lower_char_def)
  show "add_branch_to_cache w ''Dev'' h = Inr h"
    by (rule add_branch_dev) (simp add: lower_def lower_char_def)
  show "add_branch_to_cache w ''DEV'' h = Inr h"
    by (rule add_branch_dev) (simp add: lower_def lower_char_def)
qed

theorem C7_history_invariants_preserved_witness:
  "history_ok [''feature/x'', ''main''] \<and> lower ''dEv'' = ''dev'' \<and>
   add_branch_to_cache Written ''main'' [''feature/x'', ''main''] = Inr [''main'', ''feature/x''] \<and>
   history_ok [''main'', ''feature/x''] \<and>
   add_branch_to_cache Written ''dEv'' [''feature/x'', ''main''] = Inr [''feature/x'', ''main'']"
proof -
  have a: "add_branch_to_cache Written ''main'' [''feature/x'', ''main''] = Inr [''main'', ''feature/x'']"
    by (simp add: add_branch_to_cache_def and_then_def list_remove_def save_branch_cache_def
        lower_def lower_char_def)
  have b: "history_ok [''feature/x'', ''main'']" "lower ''dEv'' = ''dev''"
    by (simp_all add: history_ok_def lower_def lower_char_def)
  from C7_history_invariants_preserved [of "[''feature/x'', ''main'']" Written "''main''"]
    C7_history_invariants_preserved [of "[''feature/x'', ''main'']" Written "''dEv''"] a b
  show ?thesis by auto
qed

text \<open>
  Claim C8. For a name other than \<open>dev\<close> and a successful write,
  \<open>add_branch_to_cache\<close> deletes the occurrence of the name (its first occurrence; its
  only one in a history without duplicates), puts the name in front and keeps the first
  50 elements. Touching 51 distinct such names in sequence leaves exactly 50 names, the
  50 touched last, the most recent first. Touching a name twice in a row gives the same
  history as touching it once: the name in front, and no duplicate when there was none.
\<close>

theorem C8_touch_moves_to_front:
  "(lower n \<noteq> ''dev'' \<longrightarrow>
      add_branch_to_cache Written n h = Inr (take 50 (n # remove1 n h))) \<and>
   (lower n \<noteq> ''dev'' \<and> distinct h \<longrightarrow>
      add_branch_to_cache Written n h = Inr (take 50 (n # removeAll n h))) \<and>
   (distinct ns \<and> length ns = 51 \<and> (\<forall>m \<in> set ns. lower m \<noteq> ''dev'') \<longrightarrow>
      (\<exists>r. touch_all ns h = Inr r \<and> length r = 50 \<and> r = take 50 (rev ns))) \<and>
   (lower n \<noteq> ''dev'' \<longrightarrow>
      touch_all [n, n] h = Inr (take 50 (n # remove1 n h)) \<and>
      (distinct h \<longrightarrow> distinct (take 50 (n # remove1 n h))))"
proof (intro conjI impI)
  assume "lower n \<noteq> ''dev''"
  then show "add_branch_to_cache Written n h = Inr (take 50 (n # remove1 n h))"
    by (rule add_branch_written)
next
  assume "lower n \<noteq> ''dev'' \<and> distinct h"
  then show "add_branch_to_cache Written n h = Inr (take 50 (n # removeAll n h))"
    by (simp add: add_branch_written distinct_remove1_removeAll del: take_Cons_numeral)
next
  assume a: "distinct ns \<and> length ns = 51 \<and> (\<forall>m \<in> set ns. lower m \<noteq> ''dev'')"
  then have "touch_all ns h = Inr (take 50 (rev ns))"
    by (intro touch_fifty_or_more) simp_all
  then show "\<exists>r. touch_all ns h = Inr r \<and> length r = 50 \<and> r = take 50 (rev ns)"
    using a by simp
next
  assume "lower n \<noteq> ''dev''"
  then show "touch_all [n, n] h = Inr (take 50 (n # remove1 n h))" by (rule touch_twice)
next
  assume "distinct h"
  then have "distinct (n # remove1 n h)" by simp
  then show "distinct (take 50 (n # remove1 n h))" by (rule distinct_take)
qed

theorem C8_touch_moves_to_front_witness:
  "lower ''main'' \<noteq> ''dev'' \<and> distinct [''feature/x'', ''main''] \<and>
   add_branch_to_cache Written ''main'' [''feature/x'', ''main''] = Inr [''main'', ''feature/x''] \<and>
   touch_all [''main'', ''main''] [''feature/x'', ''main''] = Inr [''main'', ''feature/x''] \<and>
   distinct (map (\<lambda>k. replicate (Suc k) CHR ''b'') [0..<51]) \<and>
   length (map (\<lambda>k. replicate (Suc k) CHR ''b'') [0..<51]) = 51 \<and>
   list_all (\<lambda>m. lower m \<noteq> ''dev'') (map (\<lambda>k. replicate (Suc k) CHR ''b'') [0..<51]) \<and>
   touch_all (map (\<lambda>k. replicate (Suc k) CHR ''b'') [0..<51]) [''feature/x'', ''main''] =
     Inr (take 50 (rev (map (\<lambda>k. replicate (Suc k) CHR ''b'') [0..<51])))"
proof -
  let ?ns = "map (\<lambda>k. replicate (Suc k) CHR ''b'') [0..<51]"
  have d: "distinct ?ns" by (simp add: distinct_map inj_on_def)
  have l: "length ?ns = 51" by simp
  have nd: "\<forall>m \<in> set ?ns. lower m \<noteq> ''dev''"
    by (auto simp: lower_def lower_char_def)
  have m: "lower ''main'' \<noteq> ''dev''" "distinct [''feature/x'', ''main'']"
    by (simp_all add: lower_def lower_char_def)
  from C8_touch_moves_to_front [of "''main''" "[''feature/x'', ''main'']" ?ns] d l nd m
  show ?thesis by (simp add: list_all_iff del: touch_all.simps)
qed

section \<open>Job cache: hits, misses and escaping exceptions\<close>

lemmas load_eval =
  load_jobs_cache_def except_return_None_def and_then_def json_load_def subscript_def
  fromisoformat_def elapsed_def timedelta_minutes_def CACHE_DURATION_MINUTES_def

lemma load_absent_or_garbled:
  "load_jobs_cache parse now Absent = Inr JNull"
  "load_jobs_cache parse now Garbled = Inr JNull"
  by (simp_all add: load_eval)

lemma load_missing_key_or_bad_timestamp:
  "load_jobs_cache parse now (Document (JObj [(''jobs'', js)])) = Inr JNull"
  "parse ts = None \<Longrightarrow>
   load_jobs_cache parse now (Document (JObj [(''timestamp'', JStr ts), (''jobs'', js)])) = Inr JNull"
  "parse ts = Some (Naive t) \<Longrightarrow> now - t \<le> 86400000000 \<Longrightarrow>
   load_jobs_cache parse now (Document (JObj [(''timestamp'', JStr ts)])) = Inr JNull"
  by (simp_all add: load_eval)

lemma load_by_age:
  assumes "parse ts = Some (Naive t)"
  shows "load_jobs_cache parse now (Document (JObj [(''timestamp'', JStr ts), (''jobs'', js)])) =
     Inr (if now - t > 86400000000 then JNull else js)"
  using assms by (simp add: load_eval)

lemma load_after_save:
  assumes "parse (isoformat t) = Some (Naive t)"
  shows "load_jobs_cache parse now (save_jobs_cache isoformat t Written js f) =
     Inr (if now - t > 86400000000 then JNull else js)"
  using assms by (simp add: save_jobs_cache_def load_by_age)

text \<open>
  Claim C9. The claim holds for an absent file, an undecodable file, a missing key, a
  timestamp string that does not parse, a stale record and a fresh record (the lemmas
  above). It fails where the exception raised is none of the three the handler names:
  a cache file that exists but cannot be opened raises \<open>OSError\<close>, and a decodable
  document of the wrong shape, such as a JSON list or a record whose timestamp is a
  number, raises \<open>TypeError\<close>. \<open>load_jobs_cache\<close> lets both escape instead of returning
  \<open>None\<close>.
\<close>

theorem C9_load_jobs_cache_raises:
  "load_jobs_cache parse now No_access = Inl OSError \<and>
   load_jobs_cache parse now (Document (JArr [])) = Inl TypeError \<and>
   load_jobs_cache parse now
     (Document (JObj [(''timestamp'', JNum 0), (''jobs'', JArr [])])) = Inl TypeError"
  by (simp add: load_eval)

end
